theory Spec2Isabelle
  imports Main "HOL-Library.Signed_Division"
begin

section \<open>Binary search and binary stride: the C++ functions as HOL functions\<close>

text \<open>
  The source file \<^verbatim>\<open>binary-stride.cpp\<close> holds three functions over a raw \<^verbatim>\<open>int\<close> array
  and a separately passed element count \<^verbatim>\<open>sz\<close>:
  \<^verbatim>\<open>binary_search\<close>, \<^verbatim>\<open>binary_stride\<close> and \<^verbatim>\<open>find_crossover_point\<close>.

  The array is a list of integers, the count stays a parameter of its own, as in the
  source. A value of the C++ type \<^verbatim>\<open>int\<close> is the integer it denotes; the type is taken
  to be 32 bits wide. Two things the language leaves undefined are written out as
  results of the functions: an \<^verbatim>\<open>int\<close> computation whose result does not fit the type,
  and an array read at a position where the array has no element.

  Each loop is a recursive function with an optional result, \<open>None\<close> standing for a
  loop that never ends, so that termination is a statement to be proved.
\<close>

subsection \<open>Faults and ranges\<close>

datatype fault = Signed_Overflow | Out_Of_Bounds

definition INT_MAX :: int where
  "INT_MAX = 2147483647"

definition INT_MIN :: int where
  "INT_MIN = - 2147483648"

text \<open>The result of an \<^verbatim>\<open>int\<close> computation is defined only inside the range of the type.\<close>

definition int_ok :: "int \<Rightarrow> bool" where
  "int_ok x \<longleftrightarrow> INT_MIN \<le> x \<and> x \<le> INT_MAX"

text \<open>The read \<^verbatim>\<open>a[i]\<close> is defined only where the array has an element.\<close>

definition in_bounds :: "int list \<Rightarrow> int \<Rightarrow> bool" where
  "in_bounds a i \<longleftrightarrow> 0 \<le> i \<and> i < int (length a)"

subsection \<open>\<^verbatim>\<open>binary_search\<close> (source lines 111 to 120)\<close>

text \<open>
  \<^verbatim>\<open>
  int l = 0, r = sz - 1;
  while(l <= r) {
      int mid = (l + r) >> 1;
      if(a[mid] == needle) return mid;
      if(a[mid] < needle) l = mid+1;
      else r = mid-1;
  }
  return -1;
  \<close>
  The loop, with \<open>l\<close> and \<open>r\<close> as arguments. The shift \<^verbatim>\<open>>> 1\<close> is \<open>drop_bit 1\<close>.
\<close>

partial_function (option) binary_search_loop ::
  "int list \<Rightarrow> int \<Rightarrow> int \<Rightarrow> int \<Rightarrow> (fault + int) option" where
  "binary_search_loop a needle l r =
     (if l \<le> r then
        (if \<not> int_ok (l + r) then Some (Inl Signed_Overflow)
         else let mid = drop_bit 1 (l + r) in
           if \<not> in_bounds a mid then Some (Inl Out_Of_Bounds)
           else if a ! nat mid = needle then Some (Inr mid)
           else if a ! nat mid < needle then
             (if \<not> int_ok (mid + 1) then Some (Inl Signed_Overflow)
              else binary_search_loop a needle (mid + 1) r)
           else
             (if \<not> int_ok (mid - 1) then Some (Inl Signed_Overflow)
              else binary_search_loop a needle l (mid - 1)))
      else Some (Inr (- 1)))"

declare binary_search_loop.simps [code]

definition binary_search :: "int list \<Rightarrow> int \<Rightarrow> int \<Rightarrow> (fault + int) option" where
  "binary_search a sz needle =
     (if \<not> int_ok (sz - 1) then Some (Inl Signed_Overflow)
      else binary_search_loop a needle 0 (sz - 1))"

subsection \<open>\<^verbatim>\<open>binary_stride\<close> (source lines 172 to 179)\<close>

text \<open>
  \<^verbatim>\<open>
  int pos = 0;
  for(int stride = sz/2;stride >= 1;stride /= 2) {
      while(pos+stride < sz && a[pos+stride] <= needle) pos += stride;
  }
  if(a[pos] == needle) return pos;
  return -1;
  \<close>
  The inner \<^verbatim>\<open>while\<close>: the sum \<^verbatim>\<open>pos+stride\<close> is computed first, the array is read only
  when the left operand of \<^verbatim>\<open>&&\<close> holds.
\<close>

partial_function (option) stride_while ::
  "int list \<Rightarrow> int \<Rightarrow> int \<Rightarrow> int \<Rightarrow> int \<Rightarrow> (fault + int) option" where
  "stride_while a sz needle stride pos =
     (if \<not> int_ok (pos + stride) then Some (Inl Signed_Overflow)
      else if pos + stride < sz then
        (if \<not> in_bounds a (pos + stride) then Some (Inl Out_Of_Bounds)
         else if a ! nat (pos + stride) \<le> needle
           then stride_while a sz needle stride (pos + stride)
           else Some (Inr pos))
      else Some (Inr pos))"

declare stride_while.simps [code]

text \<open>
  The outer \<^verbatim>\<open>for\<close>. The division of C++ truncates towards zero, which is \<open>sdiv\<close>.
\<close>

partial_function (option) stride_for ::
  "int list \<Rightarrow> int \<Rightarrow> int \<Rightarrow> int \<Rightarrow> int \<Rightarrow> (fault + int) option" where
  "stride_for a sz needle stride pos =
     (if 1 \<le> stride then
        Option.bind (stride_while a sz needle stride pos)
          (\<lambda>res. case res of
             Inl e \<Rightarrow> Some (Inl e)
           | Inr pos' \<Rightarrow> stride_for a sz needle (stride sdiv 2) pos')
      else Some (Inr pos))"

declare stride_for.simps [code]

text \<open>The function: the two loops, then the one read \<^verbatim>\<open>a[pos]\<close> of the last line but one.\<close>

definition binary_stride :: "int list \<Rightarrow> int \<Rightarrow> int \<Rightarrow> (fault + int) option" where
  "binary_stride a sz needle =
     Option.bind (stride_for a sz needle (sz sdiv 2) 0)
       (\<lambda>res. case res of
          Inl e \<Rightarrow> Some (Inl e)
        | Inr pos \<Rightarrow>
            if \<not> in_bounds a pos then Some (Inl Out_Of_Bounds)
            else if a ! nat pos = needle then Some (Inr pos)
            else Some (Inr (- 1)))"

subsection \<open>\<^verbatim>\<open>find_crossover_point\<close> (source lines 216 to 222)\<close>

text \<open>
  \<^verbatim>\<open>
  int pos = 0;
  for(int stride = sz/2;stride >= 1;stride /= 2) {
      while(fn(a[pos+stride]) <= 0) pos += stride;
  }
  return pos;
  \<close>
  The function \<^verbatim>\<open>fn\<close> is called but declared nowhere in the repository, so it is a
  parameter here. The predicate of the specification at index \<open>i\<close> is \<open>fn (a ! i)\<close>.
  The condition of the \<^verbatim>\<open>while\<close> has no comparison of \<^verbatim>\<open>pos+stride\<close> with \<^verbatim>\<open>sz\<close>.
\<close>

partial_function (option) crossover_while ::
  "(int \<Rightarrow> int) \<Rightarrow> int list \<Rightarrow> int \<Rightarrow> int \<Rightarrow> (fault + int) option" where
  "crossover_while fn a stride pos =
     (if \<not> int_ok (pos + stride) then Some (Inl Signed_Overflow)
      else if \<not> in_bounds a (pos + stride) then Some (Inl Out_Of_Bounds)
      else if fn (a ! nat (pos + stride)) \<le> 0
        then crossover_while fn a stride (pos + stride)
        else Some (Inr pos))"

declare crossover_while.simps [code]

partial_function (option) crossover_for ::
  "(int \<Rightarrow> int) \<Rightarrow> int list \<Rightarrow> int \<Rightarrow> int \<Rightarrow> (fault + int) option" where
  "crossover_for fn a stride pos =
     (if 1 \<le> stride then
        Option.bind (crossover_while fn a stride pos)
          (\<lambda>res. case res of
             Inl e \<Rightarrow> Some (Inl e)
           | Inr pos' \<Rightarrow> crossover_for fn a (stride sdiv 2) pos')
      else Some (Inr pos))"

declare crossover_for.simps [code]

definition find_crossover_point ::
  "(int \<Rightarrow> int) \<Rightarrow> int list \<Rightarrow> int \<Rightarrow> (fault + int) option" where
  "find_crossover_point fn a sz = crossover_for fn a (sz sdiv 2) 0"

subsection \<open>The crossover finder as the specification words it\<close>

text \<open>
  Section 4.3 of the specification gives the crossover finder the control structure of
  the stride search with the advance condition \<^verbatim>\<open>predicate(pos+stride) > 0\<close>. The three
  definitions below follow these words; they differ from the functions of the source
  in that comparison only, and serve to compare the two.
\<close>

partial_function (option) spec_crossover_while ::
  "(int \<Rightarrow> int) \<Rightarrow> int list \<Rightarrow> int \<Rightarrow> int \<Rightarrow> (fault + int) option" where
  "spec_crossover_while fn a stride pos =
     (if \<not> int_ok (pos + stride) then Some (Inl Signed_Overflow)
      else if \<not> in_bounds a (pos + stride) then Some (Inl Out_Of_Bounds)
      else if 0 < fn (a ! nat (pos + stride))
        then spec_crossover_while fn a stride (pos + stride)
        else Some (Inr pos))"

declare spec_crossover_while.simps [code]

partial_function (option) spec_crossover_for ::
  "(int \<Rightarrow> int) \<Rightarrow> int list \<Rightarrow> int \<Rightarrow> int \<Rightarrow> (fault + int) option" where
  "spec_crossover_for fn a stride pos =
     (if 1 \<le> stride then
        Option.bind (spec_crossover_while fn a stride pos)
          (\<lambda>res. case res of
             Inl e \<Rightarrow> Some (Inl e)
           | Inr pos' \<Rightarrow> spec_crossover_for fn a (stride sdiv 2) pos')
      else Some (Inr pos))"

declare spec_crossover_for.simps [code]

definition find_crossover_spec ::
  "(int \<Rightarrow> int) \<Rightarrow> int list \<Rightarrow> int \<Rightarrow> (fault + int) option" where
  "find_crossover_spec fn a sz = spec_crossover_for fn a (sz sdiv 2) 0"

section \<open>Basic facts\<close>

lemmas c_ranges = int_ok_def INT_MAX_def INT_MIN_def in_bounds_def

lemma sdiv_2_nonneg: "0 \<le> (s::int) \<Longrightarrow> s sdiv 2 = s div 2"
  by (simp add: signed_divide_int_def sgn_if)

section \<open>No loop of the model runs forever\<close>

text \<open>
  Every run of a loop reaches a result: a returned value, or the first undefined step
  (a fault). A fault is not a return; which runs return is the subject of the sections
  that follow.

  The distance between the bounds shrinks in each round of the bisection: the midpoint
  lies between them.
\<close>

lemma binary_search_loop_total:
  "\<exists>res. binary_search_loop a needle l r = Some res"
proof (induction "nat (r - l + 1)" arbitrary: l r rule: less_induct)
  case less
  define mid where "mid = drop_bit 1 (l + r)"
  have mid_eq: "mid = (l + r) div 2"
    by (simp add: mid_def drop_bit_eq_div)
  have up: "\<exists>res. binary_search_loop a needle (mid + 1) r = Some res" if "l \<le> r"
    using that mid_eq by (intro less) linarith
  have down: "\<exists>res. binary_search_loop a needle l (mid - 1) = Some res" if "l \<le> r"
    using that mid_eq by (intro less) linarith
  show ?case
    using up down unfolding mid_def
    by (subst binary_search_loop.simps) (simp add: Let_def)
qed

lemma binary_search_total: "\<exists>res. binary_search a sz needle = Some res"
  by (simp add: binary_search_def binary_search_loop_total)

text \<open>With a stride of at least one, the position climbs towards \<open>sz\<close>.\<close>

lemma stride_while_total:
  assumes "1 \<le> stride"
  shows "\<exists>res. stride_while a sz needle stride pos = Some res"
proof (induction "nat (sz - pos)" arbitrary: pos rule: less_induct)
  case less
  have step: "\<exists>res. stride_while a sz needle stride (pos + stride) = Some res"
    if "pos + stride < sz"
    using that assms by (intro less) linarith
  show ?case
    using step by (subst stride_while.simps) simp
qed

lemma stride_for_total:
  "\<exists>res. stride_for a sz needle stride pos = Some res"
proof (induction "nat stride" arbitrary: stride pos rule: less_induct)
  case less
  show ?case
  proof (cases "1 \<le> stride")
    case False
    then show ?thesis by (subst stride_for.simps) simp
  next
    case True
    obtain res where res: "stride_while a sz needle stride pos = Some res"
      using stride_while_total [OF True] by blast
    have next_level: "\<exists>out. stride_for a sz needle (stride sdiv 2) p = Some out" for p
      using True by (intro less) (simp add: sdiv_2_nonneg)
    show ?thesis
      using True res next_level
      by (subst stride_for.simps) (cases res; simp)
  qed
qed

lemma binary_stride_total: "\<exists>res. binary_stride a sz needle = Some res"
proof -
  obtain res where "stride_for a sz needle (sz sdiv 2) 0 = Some res"
    using stride_for_total by blast
  then show ?thesis
    by (cases res) (simp_all add: binary_stride_def)
qed

text \<open>
  The crossover loop has no comparison with \<open>sz\<close>; what ends it, at the latest, is the
  end of the array, where the read has no element left.
\<close>

lemma crossover_while_total:
  assumes "1 \<le> stride"
  shows "\<exists>res. crossover_while fn a stride pos = Some res"
proof (induction "nat (int (length a) - (pos + stride))" arbitrary: pos rule: less_induct)
  case less
  have step: "\<exists>res. crossover_while fn a stride (pos + stride) = Some res"
    if "in_bounds a (pos + stride)"
    using that assms by (intro less) (simp add: in_bounds_def)
  show ?case
    using step by (subst crossover_while.simps) simp
qed

lemma crossover_for_total:
  "\<exists>res. crossover_for fn a stride pos = Some res"
proof (induction "nat stride" arbitrary: stride pos rule: less_induct)
  case less
  show ?case
  proof (cases "1 \<le> stride")
    case False
    then show ?thesis by (subst crossover_for.simps) simp
  next
    case True
    obtain res where res: "crossover_while fn a stride pos = Some res"
      using crossover_while_total [OF True] by blast
    have next_level: "\<exists>out. crossover_for fn a (stride sdiv 2) p = Some out" for p
      using True by (intro less) (simp add: sdiv_2_nonneg)
    show ?thesis
      using True res next_level
      by (subst crossover_for.simps) (cases res; simp)
  qed
qed

section \<open>What the crossover loops establish\<close>

text \<open>
  When the inner loop returns, it has moved over positions where \<^verbatim>\<open>fn\<close> is not positive
  and has stopped in front of a position, inside the array, where \<^verbatim>\<open>fn\<close> is positive.
\<close>

lemma crossover_while_post:
  assumes "1 \<le> stride"
  shows "crossover_while fn a stride pos = Some (Inr p) \<Longrightarrow>
     pos \<le> p \<and> (p = pos \<or> fn (a ! nat p) \<le> 0)
     \<and> in_bounds a (p + stride) \<and> 0 < fn (a ! nat (p + stride))"
proof (induction "nat (int (length a) - (pos + stride))" arbitrary: pos rule: less_induct)
  case less
  let ?q = "pos + stride"
  show ?case
  proof (cases "int_ok ?q \<and> in_bounds a ?q \<and> fn (a ! nat ?q) \<le> 0")
    case True
    then have run: "crossover_while fn a stride ?q = Some (Inr p)"
      using less.prems by (subst (asm) crossover_while.simps) simp
    have "nat (int (length a) - (?q + stride)) < nat (int (length a) - ?q)"
      using True assms by (simp add: in_bounds_def)
    from less.hyps [OF this run]
    have "?q \<le> p \<and> (p = ?q \<or> fn (a ! nat p) \<le> 0)
      \<and> in_bounds a (p + stride) \<and> 0 < fn (a ! nat (p + stride))" .
    then show ?thesis
      using True assms by auto
  next
    case False
    then have "p = pos \<and> in_bounds a ?q \<and> 0 < fn (a ! nat ?q)"
      using less.prems
      by (subst (asm) crossover_while.simps) (auto split: if_splits)
    then show ?thesis by simp
  qed
qed

lemma bind_result_Inr:
  assumes "Option.bind m (\<lambda>res. case res of Inl e \<Rightarrow> Some (Inl e) | Inr v \<Rightarrow> f v) = Some (Inr p)"
  obtains v where "m = Some (Inr v)" and "f v = Some (Inr p)"
  using assms by (cases m) (auto split: sum.splits)

lemma crossover_for_post:
  "crossover_for fn a stride pos = Some (Inr p) \<Longrightarrow>
   pos = 0 \<or> fn (a ! nat pos) \<le> 0 \<Longrightarrow>
     pos \<le> p \<and> (p = 0 \<or> fn (a ! nat p) \<le> 0)
     \<and> (1 \<le> stride \<longrightarrow> in_bounds a (p + 1) \<and> 0 < fn (a ! nat (p + 1)))"
proof (induction "nat stride" arbitrary: stride pos rule: less_induct)
  case less
  show ?case
  proof (cases "1 \<le> stride")
    case False
    then have "p = pos"
      using less.prems(1) by (subst (asm) crossover_for.simps) simp
    then show ?thesis
      using False less.prems(2) by simp
  next
    case True
    have "Option.bind (crossover_while fn a stride pos)
            (\<lambda>res. case res of Inl e \<Rightarrow> Some (Inl e)
               | Inr pos' \<Rightarrow> crossover_for fn a (stride sdiv 2) pos') = Some (Inr p)"
      using less.prems(1) True by (subst (asm) crossover_for.simps) simp
    then obtain v where inner: "crossover_while fn a stride pos = Some (Inr v)"
      and rest: "crossover_for fn a (stride sdiv 2) v = Some (Inr p)"
      by (rule bind_result_Inr)
    have half: "stride sdiv 2 = stride div 2"
      using True by (simp add: sdiv_2_nonneg)
    from crossover_while_post [OF True inner]
    have v: "pos \<le> v" "v = pos \<or> fn (a ! nat v) \<le> 0"
      "in_bounds a (v + stride)" "0 < fn (a ! nat (v + stride))"
      by simp_all
    have v_inv: "v = 0 \<or> fn (a ! nat v) \<le> 0"
      using v(2) less.prems(2) by auto
    have "nat (stride sdiv 2) < nat stride"
      using True half by simp
    from less.hyps [OF this rest v_inv]
    have IH: "v \<le> p" "p = 0 \<or> fn (a ! nat p) \<le> 0"
      "1 \<le> stride sdiv 2 \<longrightarrow> in_bounds a (p + 1) \<and> 0 < fn (a ! nat (p + 1))"
      by simp_all
    show ?thesis
    proof (cases "1 \<le> stride sdiv 2")
      case True
      then show ?thesis using IH v(1) by simp
    next
      case False
      then have one: "stride = 1"
        using \<open>1 \<le> stride\<close> half by linarith
      have "p = v"
        using rest False by (subst (asm) crossover_for.simps) simp
      then show ?thesis
        using IH v one by simp
    qed
  qed
qed

text \<open>
  When the positive part of the array begins at \<open>k\<close> and the stride leaves room behind
  \<open>k\<close>, no probe leaves the array and the loops return.
\<close>

lemma crossover_while_returns:
  assumes stride: "1 \<le> stride"
    and room: "int k + stride \<le> int (length a)"
    and size: "int (length a) \<le> INT_MAX"
    and pos: "\<forall>i. k \<le> i \<and> i < length a \<longrightarrow> 0 < fn (a ! i)"
  shows "0 \<le> pos \<Longrightarrow> pos < int k \<Longrightarrow>
    \<exists>p. crossover_while fn a stride pos = Some (Inr p) \<and> pos \<le> p \<and> p < int k"
proof (induction "nat (int k - pos)" arbitrary: pos rule: less_induct)
  case less
  let ?q = "pos + stride"
  have ok: "int_ok ?q"
    using less.prems stride room size by (simp add: int_ok_def INT_MIN_def)
  have inb: "in_bounds a ?q"
    using less.prems stride room by (simp add: in_bounds_def)
  show ?case
  proof (cases "fn (a ! nat ?q) \<le> 0")
    case False
    then have "crossover_while fn a stride pos = Some (Inr pos)"
      using ok inb by (subst crossover_while.simps) simp
    then show ?thesis using less.prems by simp
  next
    case True
    have "nat ?q < k"
    proof (rule ccontr)
      assume "\<not> nat ?q < k"
      moreover have "nat ?q < length a"
        using inb by (simp add: in_bounds_def nat_less_iff)
      ultimately have "0 < fn (a ! nat ?q)"
        using pos by simp
      with True show False by simp
    qed
    then have q: "0 \<le> ?q" "?q < int k"
      using less.prems stride by linarith+
    have "nat (int k - ?q) < nat (int k - pos)"
      using q stride by linarith
    from less.hyps [OF this q]
    obtain p where "crossover_while fn a stride ?q = Some (Inr p)" "?q \<le> p" "p < int k"
      by blast
    moreover have "crossover_while fn a stride pos = crossover_while fn a stride ?q"
      using ok inb True by (subst crossover_while.simps) simp
    ultimately show ?thesis
      using stride by auto
  qed
qed

lemma crossover_for_returns:
  assumes room: "int k + stride \<le> int (length a)"
    and size: "int (length a) \<le> INT_MAX"
    and pos: "\<forall>i. k \<le> i \<and> i < length a \<longrightarrow> 0 < fn (a ! i)"
  shows "0 \<le> pos \<Longrightarrow> pos < int k \<Longrightarrow>
    \<exists>p. crossover_for fn a stride pos = Some (Inr p)"
  using room
proof (induction "nat stride" arbitrary: stride pos rule: less_induct)
  case less
  show ?case
  proof (cases "1 \<le> stride")
    case False
    then show ?thesis by (subst crossover_for.simps) simp
  next
    case True
    from crossover_while_returns [OF True less.prems(3) size pos less.prems(1,2)]
    obtain v where v: "crossover_while fn a stride pos = Some (Inr v)" "pos \<le> v" "v < int k"
      by blast
    have half: "stride sdiv 2 = stride div 2"
      using True by (simp add: sdiv_2_nonneg)
    have "nat (stride sdiv 2) < nat stride"
      using True half by simp
    moreover have "0 \<le> v"
      using v(2) less.prems(1) by simp
    moreover have "int k + stride sdiv 2 \<le> int (length a)"
      using less.prems(3) True half by linarith
    ultimately obtain p where "crossover_for fn a (stride sdiv 2) v = Some (Inr p)"
      using less.hyps v(3) by blast
    then show ?thesis
      using True v(1) by (subst crossover_for.simps) simp
  qed
qed

section \<open>The two searches on arrays of at most \<open>2^30\<close> elements\<close>

text \<open>
  Up to \<open>2^30 = 1073741824\<close> elements every sum of two indices fits the type \<^verbatim>\<open>int\<close>, and
  the searches do on a sorted array what their descriptions say.

  The bisection keeps every occurrence of the needle between its two bounds.
\<close>

lemma binary_search_loop_correct:
  assumes sorted: "sorted a"
    and size: "length a \<le> 1073741824"
  shows "0 \<le> l \<Longrightarrow> r < int (length a) \<Longrightarrow>
    \<forall>j<length a. a ! j = needle \<longrightarrow> l \<le> int j \<and> int j \<le> r \<Longrightarrow>
    \<exists>res. binary_search_loop a needle l r = Some (Inr res)
      \<and> (if needle \<in> set a then in_bounds a res \<and> a ! nat res = needle else res = - 1)"
proof (induction "nat (r - l + 1)" arbitrary: l r rule: less_induct)
  case less
  note inv = less.prems(3) [rule_format]
  show ?case
  proof (cases "l \<le> r")
    case False
    have "needle \<notin> set a"
    proof
      assume "needle \<in> set a"
      then obtain j where "j < length a" "a ! j = needle"
        by (auto simp: in_set_conv_nth)
      with inv [of j] False show False by linarith
    qed
    moreover have "binary_search_loop a needle l r = Some (Inr (- 1))"
      using False by (subst binary_search_loop.simps) simp
    ultimately show ?thesis by simp
  next
    case True
    define mid where "mid = (l + r) div 2"
    have mid: "l \<le> mid" "mid \<le> r"
      using True by (simp_all add: mid_def)
    have ok: "int_ok (l + r)" "int_ok (mid + 1)" "int_ok (mid - 1)"
      using less.prems(1,2) size mid by (simp_all add: int_ok_def INT_MAX_def INT_MIN_def)
    have inb: "in_bounds a mid"
      using less.prems(1,2) mid by (simp add: in_bounds_def)
    then have m: "nat mid < length a"
      by (simp add: in_bounds_def nat_less_iff)
    have unfold: "binary_search_loop a needle l r =
      (if a ! nat mid = needle then Some (Inr mid)
       else if a ! nat mid < needle then binary_search_loop a needle (mid + 1) r
       else binary_search_loop a needle l (mid - 1))"
      using True ok inb unfolding mid_def
      by (subst binary_search_loop.simps) (simp add: Let_def drop_bit_eq_div)
    consider (hit) "a ! nat mid = needle" | (low) "a ! nat mid < needle"
      | (high) "needle < a ! nat mid"
      by linarith
    then show ?thesis
    proof cases
      case hit
      then have "needle \<in> set a"
        using m nth_mem by blast
      then show ?thesis
        using hit inb unfold by simp
    next
      case low
      have inv': "\<forall>j<length a. a ! j = needle \<longrightarrow> mid + 1 \<le> int j \<and> int j \<le> r"
      proof (intro allI impI)
        fix j assume j: "j < length a" "a ! j = needle"
        have "\<not> j \<le> nat mid"
        proof
          assume "j \<le> nat mid"
          then have "a ! j \<le> a ! nat mid"
            using sorted m by (simp add: sorted_nth_mono)
          with j low show False by simp
        qed
        then show "mid + 1 \<le> int j \<and> int j \<le> r"
          using inv [OF j] by linarith
      qed
      have "nat (r - (mid + 1) + 1) < nat (r - l + 1)"
        using mid by linarith
      moreover have "0 \<le> mid + 1"
        using less.prems(1) mid by linarith
      ultimately show ?thesis
        using less.hyps [of r "mid + 1"] less.prems(2) inv' unfold low by simp
    next
      case high
      have inv': "\<forall>j<length a. a ! j = needle \<longrightarrow> l \<le> int j \<and> int j \<le> mid - 1"
      proof (intro allI impI)
        fix j assume j: "j < length a" "a ! j = needle"
        have "\<not> nat mid \<le> j"
        proof
          assume "nat mid \<le> j"
          then have "a ! nat mid \<le> a ! j"
            using sorted j(1) by (simp add: sorted_nth_mono)
          with j high show False by simp
        qed
        then show "l \<le> int j \<and> int j \<le> mid - 1"
          using inv [OF j] by linarith
      qed
      have "nat (mid - 1 - l + 1) < nat (r - l + 1)"
        using mid by linarith
      moreover have "mid - 1 < int (length a)"
        using less.prems(2) mid by linarith
      ultimately show ?thesis
        using less.hyps [of "mid - 1" l] less.prems(1) inv' unfold high by simp
    qed
  qed
qed

text \<open>
  On a sorted array of at most \<open>2^30\<close> elements \<^verbatim>\<open>binary_search\<close> returns an index of the
  needle when the needle occurs, and \<open>-1\<close> when it does not.
\<close>

theorem binary_search_correct_up_to_2_30:
  assumes "sorted a" and "length a \<le> 1073741824"
  shows "\<exists>res. binary_search a (int (length a)) needle = Some (Inr res)
    \<and> (if needle \<in> set a then in_bounds a res \<and> a ! nat res = needle else res = - 1)"
proof -
  have "int_ok (int (length a) - 1)"
    using assms(2) by (simp add: int_ok_def INT_MAX_def INT_MIN_def)
  moreover have "\<exists>res. binary_search_loop a needle 0 (int (length a) - 1) = Some (Inr res)
    \<and> (if needle \<in> set a then in_bounds a res \<and> a ! nat res = needle else res = - 1)"
    by (rule binary_search_loop_correct [OF assms]) auto
  ultimately show ?thesis
    by (simp add: binary_search_def)
qed

theorem binary_search_correct_up_to_2_30_witness:
  "\<exists>res. binary_search [1, 4, 9] 3 4 = Some (Inr res)
     \<and> in_bounds [1, 4, 9] res \<and> [1, 4, 9 :: int] ! nat res = 4"
  using binary_search_correct_up_to_2_30 [of "[1, 4, 9]" 4] by simp

text \<open>
  The stride loops keep the position on an element that is at most the needle (or on
  index 0), and each level ends in front of an element greater than the needle or in
  front of the end of the array.
\<close>

lemma stride_while_inv:
  assumes sorted: "sorted a"
    and size: "length a \<le> 1073741824"
    and stride: "1 \<le> stride" "stride \<le> int (length a)"
  shows "0 \<le> pos \<Longrightarrow> pos < int (length a) \<Longrightarrow> pos = 0 \<or> a ! nat pos \<le> needle \<Longrightarrow>
    \<exists>p. stride_while a (int (length a)) needle stride pos = Some (Inr p)
      \<and> pos \<le> p \<and> p < int (length a) \<and> (p = 0 \<or> a ! nat p \<le> needle)
      \<and> (p + stride < int (length a) \<longrightarrow> needle < a ! nat (p + stride))"
proof (induction "nat (int (length a) - pos)" arbitrary: pos rule: less_induct)
  case less
  let ?q = "pos + stride"
  have ok: "int_ok ?q"
    using less.prems(1,2) stride size by (simp add: int_ok_def INT_MAX_def INT_MIN_def)
  show ?case
  proof (cases "?q < int (length a) \<and> a ! nat ?q \<le> needle")
    case False
    then have "stride_while a (int (length a)) needle stride pos = Some (Inr pos)"
      using ok less.prems(1) stride(1)
      by (subst stride_while.simps) (auto simp: in_bounds_def)
    then show ?thesis
      using False less.prems by auto
  next
    case True
    then have inb: "in_bounds a ?q"
      using less.prems(1) stride by (simp add: in_bounds_def)
    have step: "stride_while a (int (length a)) needle stride pos
        = stride_while a (int (length a)) needle stride ?q"
      using ok inb True by (subst stride_while.simps) simp
    have "nat (int (length a) - ?q) < nat (int (length a) - pos)"
      using True stride by linarith
    moreover have "0 \<le> ?q"
      using less.prems(1) stride by linarith
    ultimately obtain p where p: "stride_while a (int (length a)) needle stride ?q = Some (Inr p)"
      "?q \<le> p" "p < int (length a)" "p = 0 \<or> a ! nat p \<le> needle"
      "p + stride < int (length a) \<longrightarrow> needle < a ! nat (p + stride)"
      using less.hyps [of ?q] True by blast
    show ?thesis
      using step p stride by auto
  qed
qed

lemma stride_for_inv:
  assumes sorted: "sorted a"
    and size: "length a \<le> 1073741824"
  shows "stride \<le> int (length a) \<Longrightarrow>
    0 \<le> pos \<Longrightarrow> pos < int (length a) \<Longrightarrow> pos = 0 \<or> a ! nat pos \<le> needle \<Longrightarrow>
    \<exists>p. stride_for a (int (length a)) needle stride pos = Some (Inr p)
      \<and> pos \<le> p \<and> p < int (length a) \<and> (p = 0 \<or> a ! nat p \<le> needle)
      \<and> (1 \<le> stride \<longrightarrow> p + 1 < int (length a) \<longrightarrow> needle < a ! nat (p + 1))"
proof (induction "nat stride" arbitrary: stride pos rule: less_induct)
  case less
  show ?case
  proof (cases "1 \<le> stride")
    case False
    then have "stride_for a (int (length a)) needle stride pos = Some (Inr pos)"
      by (subst stride_for.simps) simp
    then show ?thesis
      using False less.prems by simp
  next
    case True
    from stride_while_inv [OF sorted size True less.prems]
    obtain v where v: "stride_while a (int (length a)) needle stride pos = Some (Inr v)"
      "pos \<le> v" "v < int (length a)" "v = 0 \<or> a ! nat v \<le> needle"
      "v + stride < int (length a) \<longrightarrow> needle < a ! nat (v + stride)"
      by blast
    have half: "stride sdiv 2 = stride div 2"
      using True by (simp add: sdiv_2_nonneg)
    have step: "stride_for a (int (length a)) needle stride pos
        = stride_for a (int (length a)) needle (stride sdiv 2) v"
      using True v(1) by (subst stride_for.simps) simp
    have "nat (stride sdiv 2) < nat stride" "stride sdiv 2 \<le> int (length a)" "0 \<le> v"
      using True half less.prems(1,2) v(2) by linarith+
    from less.hyps [OF this(1,2,3) v(3,4)]
    obtain p where p: "stride_for a (int (length a)) needle (stride sdiv 2) v = Some (Inr p)"
      "v \<le> p" "p < int (length a)" "p = 0 \<or> a ! nat p \<le> needle"
      "1 \<le> stride sdiv 2 \<longrightarrow> p + 1 < int (length a) \<longrightarrow> needle < a ! nat (p + 1)"
      by blast
    show ?thesis
    proof (cases "1 \<le> stride sdiv 2")
      case True
      then show ?thesis
        using step p v(2) by auto
    next
      case False
      then have one: "stride = 1"
        using \<open>1 \<le> stride\<close> half by linarith
      have "p = v"
        using p(1) False by (subst (asm) stride_for.simps) simp
      then show ?thesis
        using step p v one by auto
    qed
  qed
qed

text \<open>
  On a non-empty sorted array of at most \<open>2^30\<close> elements \<^verbatim>\<open>binary_stride\<close> returns the
  greatest index of the needle when the needle occurs, and \<open>-1\<close> when it does not.
\<close>

theorem binary_stride_correct_up_to_2_30:
  assumes sorted: "sorted a"
    and size: "1 \<le> length a" "length a \<le> 1073741824"
  shows "(needle \<in> set a \<longrightarrow>
      (\<exists>p<length a. binary_stride a (int (length a)) needle = Some (Inr (int p))
         \<and> a ! p = needle \<and> (\<forall>i<length a. a ! i = needle \<longrightarrow> i \<le> p)))
    \<and> (needle \<notin> set a \<longrightarrow> binary_stride a (int (length a)) needle = Some (Inr (- 1)))"
proof -
  let ?n = "int (length a)"
  have half: "?n sdiv 2 = ?n div 2"
    by (simp add: sdiv_2_nonneg)
  have "?n sdiv 2 \<le> ?n" "(0::int) \<le> 0" "0 < ?n" "(0::int) = 0 \<or> a ! nat 0 \<le> needle"
    using size(1) half by linarith+
  from stride_for_inv [OF sorted size(2) this]
  obtain q where q: "stride_for a ?n needle (?n sdiv 2) 0 = Some (Inr q)"
    "0 \<le> q" "q < ?n" "q = 0 \<or> a ! nat q \<le> needle"
    "1 \<le> ?n sdiv 2 \<longrightarrow> q + 1 < ?n \<longrightarrow> needle < a ! nat (q + 1)"
    by blast
  define p where "p = nat q"
  have p: "p < length a" "q = int p"
    using q(2,3) by (simp_all add: p_def)
  have result: "binary_stride a ?n needle
      = (if a ! p = needle then Some (Inr (int p)) else Some (Inr (- 1)))"
    using q(1) p by (simp add: binary_stride_def in_bounds_def)
  have above: "needle < a ! i" if "p < i" "i < length a" for i
  proof -
    have two: "1 \<le> ?n sdiv 2"
      using that p(1) half by simp
    have "q + 1 < ?n"
      using that p(2) by simp
    with q(5) two have "needle < a ! nat (q + 1)"
      by simp
    moreover have "nat (q + 1) = Suc p"
      using p(2) by simp
    moreover have "a ! Suc p \<le> a ! i"
      using sorted that by (simp add: sorted_nth_mono)
    ultimately show ?thesis by simp
  qed
  have last: "i \<le> p" if "i < length a" "a ! i = needle" for i
    using above [of i] that by force
  have found: "a ! p = needle" if occurs: "needle \<in> set a"
  proof -
    obtain j where j: "j < length a" "a ! j = needle"
      using occurs by (auto simp: in_set_conv_nth)
    have "j \<le> p"
      using last j by simp
    then have "needle \<le> a ! p"
      using sorted p(1) j(2) by (auto simp: sorted_nth_mono)
    moreover have "a ! p \<le> needle"
    proof (cases "p = 0")
      case True
      have "a ! 0 \<le> a ! j"
        using sorted j(1) by (simp add: sorted_nth_mono)
      then show ?thesis
        using True j(2) by simp
    next
      case False
      then show ?thesis
        using q(4) p(2) by simp
    qed
    ultimately show ?thesis by simp
  qed
  have missed: "a ! p \<noteq> needle" if "needle \<notin> set a"
    using that p(1) nth_mem by blast
  show ?thesis
    using result found missed last p(1) by auto
qed

theorem binary_stride_correct_up_to_2_30_witness:
  "\<exists>p<3. binary_stride [4, 4, 9] 3 4 = Some (Inr (int p))
     \<and> [4, 4, 9] ! p = (4::int) \<and> (\<forall>i<3. [4, 4, 9] ! i = (4::int) \<longrightarrow> i \<le> p)"
  using binary_stride_correct_up_to_2_30 [of "[4, 4, 9]" 4] by (simp add: numeral_3_eq_3)

text \<open>
  Hence, on these arrays, the two searches agree on whether the needle is found, and an
  index returned by either holds the needle.
\<close>

theorem searches_agree_up_to_2_30:
  assumes "sorted a" and "1 \<le> length a" and "length a \<le> 1073741824"
  shows "\<exists>i j. binary_search a (int (length a)) needle = Some (Inr i)
    \<and> binary_stride a (int (length a)) needle = Some (Inr j)
    \<and> (i = - 1 \<longleftrightarrow> j = - 1)
    \<and> (i \<noteq> - 1 \<longrightarrow> in_bounds a i \<and> a ! nat i = needle)
    \<and> (j \<noteq> - 1 \<longrightarrow> in_bounds a j \<and> a ! nat j = needle)"
proof -
  from binary_search_correct_up_to_2_30 [OF assms(1,3)]
  obtain i where i: "binary_search a (int (length a)) needle = Some (Inr i)"
    "if needle \<in> set a then in_bounds a i \<and> a ! nat i = needle else i = - 1"
    by blast
  show ?thesis
  proof (cases "needle \<in> set a")
    case True
    with binary_stride_correct_up_to_2_30 [OF assms]
    obtain p where "p < length a"
      "binary_stride a (int (length a)) needle = Some (Inr (int p))" "a ! p = needle"
      by blast
    then show ?thesis
      using i True by (auto simp: in_bounds_def)
  next
    case False
    with binary_stride_correct_up_to_2_30 [OF assms]
    have "binary_stride a (int (length a)) needle = Some (Inr (- 1))"
      by blast
    then show ?thesis
      using i False by simp
  qed
qed

theorem searches_agree_up_to_2_30_witness:
  "\<exists>i j. binary_search [1, 4, 9] 3 4 = Some (Inr i)
     \<and> binary_stride [1, 4, 9] 3 4 = Some (Inr j)
     \<and> (i = - 1 \<longleftrightarrow> j = - 1)
     \<and> (i \<noteq> - 1 \<longrightarrow> in_bounds [1, 4, 9] i \<and> [1, 4, 9 :: int] ! nat i = 4)
     \<and> (j \<noteq> - 1 \<longrightarrow> in_bounds [1, 4, 9] j \<and> [1, 4, 9 :: int] ! nat j = 4)"
  using searches_agree_up_to_2_30 [of "[1, 4, 9]" 4] by simp

section \<open>Runs of the two searches that return, sorted array or not\<close>

text \<open>
  On an array of at most \<open>2^30\<close> elements, sorted or not, the bisection reads inside the
  array only and returns a value.
\<close>

lemma binary_search_loop_returns:
  assumes size: "length a \<le> 1073741824"
  shows "0 \<le> l \<Longrightarrow> r < int (length a) \<Longrightarrow>
    \<exists>res. binary_search_loop a needle l r = Some (Inr res)"
proof (induction "nat (r - l + 1)" arbitrary: l r rule: less_induct)
  case less
  show ?case
  proof (cases "l \<le> r")
    case False
    then show ?thesis
      by (subst binary_search_loop.simps) simp
  next
    case True
    define mid where "mid = (l + r) div 2"
    have mid: "l \<le> mid" "mid \<le> r"
      using True by (simp_all add: mid_def)
    have ok: "int_ok (l + r)" "int_ok (mid + 1)" "int_ok (mid - 1)"
      using less.prems size mid by (simp_all add: int_ok_def INT_MAX_def INT_MIN_def)
    have inb: "in_bounds a mid"
      using less.prems mid by (simp add: in_bounds_def)
    have unfold: "binary_search_loop a needle l r =
      (if a ! nat mid = needle then Some (Inr mid)
       else if a ! nat mid < needle then binary_search_loop a needle (mid + 1) r
       else binary_search_loop a needle l (mid - 1))"
      using True ok inb unfolding mid_def
      by (subst binary_search_loop.simps) (simp add: Let_def drop_bit_eq_div)
    have up: "\<exists>res. binary_search_loop a needle (mid + 1) r = Some (Inr res)"
      using less.prems mid by (intro less.hyps) linarith+
    have down: "\<exists>res. binary_search_loop a needle l (mid - 1) = Some (Inr res)"
      using less.prems mid by (intro less.hyps) linarith+
    show ?thesis
      using unfold up down by simp
  qed
qed

theorem binary_search_returns_up_to_2_30:
  assumes "length a \<le> 1073741824"
  shows "\<exists>res. binary_search a (int (length a)) needle = Some (Inr res)"
proof -
  have "int_ok (int (length a) - 1)"
    using assms by (simp add: int_ok_def INT_MAX_def INT_MIN_def)
  moreover have "\<exists>res. binary_search_loop a needle 0 (int (length a) - 1) = Some (Inr res)"
    by (rule binary_search_loop_returns [OF assms]) simp_all
  ultimately show ?thesis
    by (simp add: binary_search_def)
qed

text \<open>
  The stride loops never leave a non-empty array of at most \<open>2^30\<close> elements, sorted or
  not, so \<^verbatim>\<open>binary_stride\<close> returns a value there.
\<close>

lemma stride_while_returns:
  assumes size: "length a \<le> 1073741824"
    and stride: "1 \<le> stride" "stride \<le> int (length a)"
  shows "0 \<le> pos \<Longrightarrow> pos < int (length a) \<Longrightarrow>
    \<exists>p. stride_while a (int (length a)) needle stride pos = Some (Inr p)
      \<and> pos \<le> p \<and> p < int (length a)"
proof (induction "nat (int (length a) - pos)" arbitrary: pos rule: less_induct)
  case less
  let ?q = "pos + stride"
  have ok: "int_ok ?q"
    using less.prems stride size by (simp add: int_ok_def INT_MAX_def INT_MIN_def)
  show ?case
  proof (cases "?q < int (length a) \<and> a ! nat ?q \<le> needle")
    case False
    then have "stride_while a (int (length a)) needle stride pos = Some (Inr pos)"
      using ok less.prems(1) stride(1)
      by (subst stride_while.simps) (auto simp: in_bounds_def)
    then show ?thesis
      using less.prems by simp
  next
    case True
    then have inb: "in_bounds a ?q"
      using less.prems(1) stride by (simp add: in_bounds_def)
    have step: "stride_while a (int (length a)) needle stride pos
        = stride_while a (int (length a)) needle stride ?q"
      using ok inb True by (subst stride_while.simps) simp
    have "nat (int (length a) - ?q) < nat (int (length a) - pos)" "0 \<le> ?q"
      using True stride less.prems(1) by linarith+
    then obtain p where "stride_while a (int (length a)) needle stride ?q = Some (Inr p)"
      "?q \<le> p" "p < int (length a)"
      using less.hyps [of ?q] True by blast
    then show ?thesis
      using step stride by auto
  qed
qed

lemma stride_for_returns:
  assumes size: "length a \<le> 1073741824"
  shows "stride \<le> int (length a) \<Longrightarrow> 0 \<le> pos \<Longrightarrow> pos < int (length a) \<Longrightarrow>
    \<exists>p. stride_for a (int (length a)) needle stride pos = Some (Inr p)
      \<and> pos \<le> p \<and> p < int (length a)"
proof (induction "nat stride" arbitrary: stride pos rule: less_induct)
  case less
  show ?case
  proof (cases "1 \<le> stride")
    case False
    then have "stride_for a (int (length a)) needle stride pos = Some (Inr pos)"
      by (subst stride_for.simps) simp
    then show ?thesis
      using less.prems by simp
  next
    case True
    from stride_while_returns [OF size True less.prems]
    obtain v where v: "stride_while a (int (length a)) needle stride pos = Some (Inr v)"
      "pos \<le> v" "v < int (length a)"
      by blast
    have half: "stride sdiv 2 = stride div 2"
      using True by (simp add: sdiv_2_nonneg)
    have step: "stride_for a (int (length a)) needle stride pos
        = stride_for a (int (length a)) needle (stride sdiv 2) v"
      using True v(1) by (subst stride_for.simps) simp
    have "nat (stride sdiv 2) < nat stride" "stride sdiv 2 \<le> int (length a)" "0 \<le> v"
      using True half less.prems(1,2) v(2) by linarith+
    from less.hyps [OF this v(3)]
    obtain p where "stride_for a (int (length a)) needle (stride sdiv 2) v = Some (Inr p)"
      "v \<le> p" "p < int (length a)"
      by blast
    then show ?thesis
      using step v(2) by auto
  qed
qed

theorem binary_stride_returns_up_to_2_30:
  assumes "1 \<le> length a" and "length a \<le> 1073741824"
  shows "\<exists>res. binary_stride a (int (length a)) needle = Some (Inr res)"
proof -
  let ?n = "int (length a)"
  have half: "?n sdiv 2 = ?n div 2"
    by (simp add: sdiv_2_nonneg)
  have "?n sdiv 2 \<le> ?n" "(0::int) \<le> 0" "0 < ?n"
    using assms(1) half by linarith+
  from stride_for_returns [OF assms(2) this]
  obtain p where "stride_for a ?n needle (?n sdiv 2) 0 = Some (Inr p)" "0 \<le> p" "p < ?n"
    by blast
  then show ?thesis
    by (simp add: binary_stride_def in_bounds_def)
qed

section \<open>The crossover loop without a positive probe\<close>

text \<open>
  When \<^verbatim>\<open>fn\<close> is positive on no element of the array, every probe inside the array lets
  the inner loop advance, and the loop ends only in a fault.
\<close>

lemma crossover_while_never_positive:
  assumes nonpos: "\<forall>x\<in>set a. fn x \<le> 0"
    and stride: "1 \<le> stride"
  shows "\<exists>e. crossover_while fn a stride pos = Some (Inl e)"
proof (induction "nat (int (length a) - (pos + stride))" arbitrary: pos rule: less_induct)
  case less
  let ?q = "pos + stride"
  show ?case
  proof (cases "int_ok ?q \<and> in_bounds a ?q")
    case False
    then show ?thesis
      by (subst crossover_while.simps) auto
  next
    case True
    then have "nat ?q < length a"
      by (simp add: in_bounds_def nat_less_iff)
    then have "fn (a ! nat ?q) \<le> 0"
      using nonpos nth_mem by blast
    then have step: "crossover_while fn a stride pos = crossover_while fn a stride ?q"
      using True by (subst crossover_while.simps) simp
    have "nat (int (length a) - (?q + stride)) < nat (int (length a) - ?q)"
      using True stride by (simp add: in_bounds_def)
    from less.hyps [OF this] step show ?thesis
      by simp
  qed
qed

section \<open>The claims\<close>

text \<open>
  C1: for every sorted sequence and every needle, \<^verbatim>\<open>binary_search\<close> and
  \<^verbatim>\<open>binary_stride\<close> give the same verdict. On the empty array of the source's own
  \<^verbatim>\<open>main\<close> (\<^verbatim>\<open>a7\<close>, needle 4) they do not: \<^verbatim>\<open>binary_search\<close> returns \<open>-1\<close>, while
  \<^verbatim>\<open>binary_stride\<close> skips both loops and reads \<^verbatim>\<open>a[0]\<close>, an element the array does not
  have.
\<close>

theorem binary_stride_differs_on_empty:
  "binary_search [] 0 4 = Some (Inr (- 1))
   \<and> binary_stride [] 0 4 = Some (Inl Out_Of_Bounds)"
  by code_simp

text \<open>
  C2: on the empty sequence \<^verbatim>\<open>binary_stride\<close> returns \<open>-1\<close> without reading the array.
  The code has no such guard: for every needle the last comparison reads \<^verbatim>\<open>a[0]\<close>
  outside the array.
\<close>

theorem binary_stride_empty_reads_outside:
  "binary_stride [] 0 needle = Some (Inl Out_Of_Bounds)"
  unfolding binary_stride_def
  apply (subst stride_for.simps)
  apply (simp add: c_ranges)
  done

text \<open>
  C3, as stated: for a predicate that is positive on \<open>[0, k)\<close> and not positive on
  \<open>[k, n)\<close> the function returns \<open>k\<close>. The loop of the source advances while \<^verbatim>\<open>fn\<close> is
  \<^emph>\<open>not\<close> positive. On \<open>[3, 1, -2]\<close> (\<open>n = 3\<close>, \<open>k = 2\<close>, \<^verbatim>\<open>fn\<close> the identity) the only probe,
  at index 1, is positive, so the position never moves and 0 is returned, not 2.
\<close>

theorem find_crossover_point_threshold_counterexample:
  "0 < id ([3, 1, - 2] ! 0 :: int) \<and> 0 < id ([3, 1, - 2] ! 1 :: int)
   \<and> id ([3, 1, - 2] ! 2 :: int) \<le> 0
   \<and> find_crossover_point id [3, 1, - 2] 3 = Some (Inr 0)
   \<and> find_crossover_point id [3, 1, - 2] 3 \<noteq> Some (Inr 2)"
  by code_simp

text \<open>
  C3, amended: let the array have \<open>n\<close> elements, \<open>1 \<le> n \<le> INT_MAX\<close>, and let \<^verbatim>\<open>fn\<close> be
  not positive on the indices \<open>[0, k)\<close> and positive on \<open>[k, n)\<close>, with \<open>1 \<le> k \<le> n\<close>. Then
  every value \<^verbatim>\<open>find_crossover_point\<close> returns is \<open>k - 1\<close>, the last index at which \<^verbatim>\<open>fn\<close>
  is not positive; and it does return this value whenever \<open>k + n div 2 \<le> n\<close>, since then
  every probed position \<^verbatim>\<open>pos+stride\<close> lies inside the array.
\<close>

theorem find_crossover_point_last_nonpositive:
  assumes n: "1 \<le> length a" "int (length a) \<le> INT_MAX"
    and k: "1 \<le> k" "k \<le> length a"
    and below: "\<forall>i<k. fn (a ! i) \<le> 0"
    and above: "\<forall>i. k \<le> i \<and> i < length a \<longrightarrow> 0 < fn (a ! i)"
  shows "(\<forall>p. find_crossover_point fn a (int (length a)) = Some (Inr p) \<longrightarrow> p = int k - 1)
    \<and> (k + length a div 2 \<le> length a \<longrightarrow>
         find_crossover_point fn a (int (length a)) = Some (Inr (int k - 1)))"
proof -
  have exact: "p = int k - 1"
    if run: "find_crossover_point fn a (int (length a)) = Some (Inr p)" for p
  proof (cases "2 \<le> length a")
    case False
    then have "int (length a) sdiv 2 = 0"
      using n(1) by (simp add: sdiv_2_nonneg)
    then have "p = 0"
      using run by (simp add: find_crossover_point_def crossover_for.simps [of _ _ 0])
    moreover have "k = 1"
      using False k by simp
    ultimately show ?thesis by simp
  next
    case True
    have run': "crossover_for fn a (int (length a) sdiv 2) 0 = Some (Inr p)"
      using run by (simp add: find_crossover_point_def)
    have "1 \<le> int (length a) sdiv 2"
      using True by (simp add: sdiv_2_nonneg)
    with crossover_for_post [OF run']
    have p: "0 \<le> p" "p = 0 \<or> fn (a ! nat p) \<le> 0"
      "in_bounds a (p + 1)" "0 < fn (a ! nat (p + 1))"
      by simp_all
    have inside: "nat p < length a" "nat (p + 1) < length a"
      using p(1,3) by (simp_all add: in_bounds_def)
    have "fn (a ! nat p) \<le> 0"
    proof (cases "p = 0")
      case True
      then show ?thesis using below k(1) by simp
    next
      case False
      then show ?thesis using p(2) by simp
    qed
    then have "nat p < k"
      using above inside(1) by (meson not_le_imp_less not_less)
    moreover have "k \<le> nat (p + 1)"
      using below p(4) by (meson not_le_imp_less not_less)
    ultimately show ?thesis
      using p(1) by linarith
  qed
  have returns: "find_crossover_point fn a (int (length a)) = Some (Inr (int k - 1))"
    if half: "k + length a div 2 \<le> length a"
  proof -
    have "int (length a) sdiv 2 = int (length a div 2)"
      by (simp add: sdiv_2_nonneg zdiv_int)
    then have "int k + int (length a) sdiv 2 \<le> int (length a)"
      using half by linarith
    from crossover_for_returns [OF this n(2) above, of 0]
    obtain p where "crossover_for fn a (int (length a) sdiv 2) 0 = Some (Inr p)"
      using k(1) by auto
    then have "find_crossover_point fn a (int (length a)) = Some (Inr p)"
      by (simp add: find_crossover_point_def)
    with exact [OF this] show ?thesis by simp
  qed
  from exact returns show ?thesis by blast
qed

theorem find_crossover_point_last_nonpositive_witness:
  "find_crossover_point id [- 2, - 1, 3, 4] 4 = Some (Inr 1)"
proof -
  let ?a = "[- 2, - 1, 3, 4 :: int]"
  have n: "1 \<le> length ?a" "int (length ?a) \<le> INT_MAX"
    by (simp_all add: INT_MAX_def)
  have k: "(1::nat) \<le> 2" "2 \<le> length ?a"
    by simp_all
  have below: "\<forall>i<2. id (?a ! i) \<le> 0"
    by (simp add: less_Suc_eq numeral_2_eq_2)
  have above: "\<forall>i. 2 \<le> i \<and> i < length ?a \<longrightarrow> 0 < id (?a ! i)"
    by (auto simp: nth_Cons' less_Suc_eq numeral_eq_Suc)
  have half: "2 + length ?a div 2 \<le> length ?a"
    by simp
  from find_crossover_point_last_nonpositive [OF n k below above] half
  have "find_crossover_point id ?a (int (length ?a)) = Some (Inr (int 2 - 1))"
    by blast
  then show ?thesis by simp
qed

text \<open>
  C4: the midpoint of \<^verbatim>\<open>binary_search\<close> is computed without signed overflow. The code
  computes \<^verbatim>\<open>(l + r) >> 1\<close>. On an array of \<open>2^31 - 1\<close> zeros and the needle 1 the first
  midpoint is \<open>1073741823\<close>, the lower bound becomes \<open>1073741824\<close>, and the next sum
  \<open>1073741824 + 2147483646\<close> is beyond \<open>INT_MAX\<close>.
\<close>

theorem binary_search_midpoint_overflows:
  "binary_search (replicate 2147483647 0) 2147483647 1 = Some (Inl Signed_Overflow)"
  unfolding binary_search_def
  apply (subst binary_search_loop.simps)
  apply (simp add: c_ranges drop_bit_eq_div)
  apply (subst binary_search_loop.simps)
  apply (simp add: c_ranges)
  done

text \<open>
  C5, as stated: the inner loop advances while the predicate at \<^verbatim>\<open>pos+stride\<close> is
  strictly positive. On \<open>[-1, -1, 1]\<close> with \<^verbatim>\<open>fn\<close> the identity the source advances over
  index 1, where the value is negative, and stops in front of index 2, where it is
  positive: it returns 1. The loop worded as in the specification does not move and
  returns 0.
\<close>

theorem crossover_spec_condition_counterexample:
  "find_crossover_point id [- 1, - 1, 1] 3 = Some (Inr 1)
   \<and> find_crossover_spec id [- 1, - 1, 1] 3 = Some (Inr 0)"
  by code_simp

text \<open>
  C5, amended: the inner loop advances while \<^verbatim>\<open>fn\<close> at \<^verbatim>\<open>pos+stride\<close> is not positive
  (\<^verbatim>\<open><= 0\<close>) and stops at the first positive probe; nothing is checked after the loops
  and the terminal position is the answer. So every returned value \<open>p\<close> is a position,
  never the sentinel \<open>-1\<close>; it is 0 or a position where \<^verbatim>\<open>fn\<close> is not positive; and
  when the count is at least 2, the last probe, at \<open>p + 1\<close>, was inside the array and
  positive.
\<close>

theorem crossover_advances_on_nonpositive:
  assumes "find_crossover_point fn a sz = Some (Inr p)"
  shows "0 \<le> p \<and> (p = 0 \<or> fn (a ! nat p) \<le> 0)
     \<and> (2 \<le> sz \<longrightarrow> in_bounds a (p + 1) \<and> 0 < fn (a ! nat (p + 1)))"
proof -
  have run: "crossover_for fn a (sz sdiv 2) 0 = Some (Inr p)"
    using assms by (simp add: find_crossover_point_def)
  have "2 \<le> sz \<Longrightarrow> 1 \<le> sz sdiv 2"
    by (simp add: sdiv_2_nonneg)
  with crossover_for_post [OF run] show ?thesis
    by auto
qed

theorem crossover_advances_on_nonpositive_witness:
  "find_crossover_point id [- 1, - 1, 1] 3 = Some (Inr 1)
   \<and> id ([- 1, - 1, 1] ! nat 1) \<le> (0::int)
   \<and> in_bounds [- 1, - 1, 1] (1 + 1)
   \<and> (0::int) < id ([- 1, - 1, 1] ! nat (1 + 1))"
proof -
  have run: "find_crossover_point id [- 1, - 1, 1] 3 = Some (Inr 1)"
    by code_simp
  show ?thesis
    using run crossover_advances_on_nonpositive [OF run] by simp
qed

text \<open>
  C6: \<^verbatim>\<open>find_crossover_point\<close> never evaluates the predicate at an index at or beyond
  the domain size. With two elements on which \<^verbatim>\<open>fn\<close> is not positive, the loop moves to
  position 1 and then reads \<^verbatim>\<open>a[2]\<close>.
\<close>

theorem find_crossover_point_reads_past_end:
  "find_crossover_point id [- 1, - 1] 2 = Some (Inl Out_Of_Bounds)"
  by code_simp

text \<open>
  C7: on a sorted sequence \<^verbatim>\<open>binary_search\<close> returns an index of the needle whenever
  the needle occurs. On \<open>2^31 - 2\<close> zeros followed by a 1, the needle 1 occurs at the
  last index, and the search stops in the overflow of its second midpoint instead of
  returning that index.
\<close>

theorem binary_search_misses_on_huge:
  "binary_search (replicate 2147483646 0 @ [1]) 2147483647 1 = Some (Inl Signed_Overflow)"
  unfolding binary_search_def
  apply (subst binary_search_loop.simps)
  apply (simp add: c_ranges drop_bit_eq_div nth_append)
  apply (subst binary_search_loop.simps)
  apply (simp add: c_ranges)
  done

text \<open>
  C8: the documented literal inputs. Both searches return index 3 for the needle 4 in
  \<open>[1..9]\<close>; \<^verbatim>\<open>binary_stride\<close> returns 1, 1 and 0 for the needle 4 in \<open>[1,4,9]\<close>, \<open>[1,4]\<close>
  and \<open>[4,9]\<close>, returns 0 and not-found for the needles 4 and 5 in \<open>[4]\<close>, and not-found
  for the needles 14 and 0 in each of \<open>[1..9]\<close>, \<open>[1,4,9]\<close>, \<open>[1,4]\<close>, \<open>[4,9]\<close>.
\<close>

theorem documented_examples:
  "binary_search [1, 2, 3, 4, 5, 6, 7, 8, 9] 9 4 = Some (Inr 3)
   \<and> binary_stride [1, 2, 3, 4, 5, 6, 7, 8, 9] 9 4 = Some (Inr 3)
   \<and> binary_stride [1, 4, 9] 3 4 = Some (Inr 1)
   \<and> binary_stride [1, 4] 2 4 = Some (Inr 1)
   \<and> binary_stride [4, 9] 2 4 = Some (Inr 0)
   \<and> binary_stride [4] 1 4 = Some (Inr 0)
   \<and> binary_stride [4] 1 5 = Some (Inr (- 1))
   \<and> binary_stride [1, 2, 3, 4, 5, 6, 7, 8, 9] 9 14 = Some (Inr (- 1))
   \<and> binary_stride [1, 4, 9] 3 14 = Some (Inr (- 1))
   \<and> binary_stride [1, 4] 2 14 = Some (Inr (- 1))
   \<and> binary_stride [4, 9] 2 14 = Some (Inr (- 1))
   \<and> binary_stride [1, 2, 3, 4, 5, 6, 7, 8, 9] 9 0 = Some (Inr (- 1))
   \<and> binary_stride [1, 4, 9] 3 0 = Some (Inr (- 1))
   \<and> binary_stride [1, 4] 2 0 = Some (Inr (- 1))
   \<and> binary_stride [4, 9] 2 0 = Some (Inr (- 1))"
  by code_simp

text \<open>
  C9: every call ends, for every array, every needle and every predicate. The \<^verbatim>\<open>while\<close>
  of \<^verbatim>\<open>find_crossover_point\<close> (source line 219) has no bound of its own: when \<^verbatim>\<open>fn\<close> is
  positive on no element of the array and the count is at least 2, no probe stops the
  loop, the position moves past the last element, and the call reaches an undefined
  step (a read outside the array, or an overflow of \<^verbatim>\<open>pos+stride\<close>) instead of
  \<^verbatim>\<open>return pos\<close>. The sibling \<^verbatim>\<open>binary_stride\<close> bounds the same loop by \<^verbatim>\<open>pos+stride < sz\<close>.
\<close>

theorem find_crossover_point_runs_off_the_array:
  assumes "\<forall>x\<in>set a. fn x \<le> 0" and "2 \<le> sz"
  shows "\<exists>e. find_crossover_point fn a sz = Some (Inl e)"
proof -
  have stride: "1 \<le> sz sdiv 2"
    using assms(2) by (simp add: sdiv_2_nonneg)
  from crossover_while_never_positive [OF assms(1) stride]
  obtain e where "crossover_while fn a (sz sdiv 2) 0 = Some (Inl e)"
    by blast
  then have "crossover_for fn a (sz sdiv 2) 0 = Some (Inl e)"
    using stride by (subst crossover_for.simps) simp
  then show ?thesis
    by (simp add: find_crossover_point_def)
qed

theorem find_crossover_point_runs_off_the_array_witness:
  "\<exists>e. find_crossover_point id [- 1, - 2, - 3] 3 = Some (Inl e)"
  using find_crossover_point_runs_off_the_array [of "[- 1, - 2, - 3]" id 3] by simp

text \<open>
  C10: on a non-empty sorted sequence that holds the needle, \<^verbatim>\<open>binary_stride\<close> returns
  the greatest index of the needle. On \<open>2^31 - 1\<close> zeros and the needle 0 the position
  reaches \<open>2147483646\<close> with the first stride \<open>1073741823\<close>, and the next sum
  \<^verbatim>\<open>pos+stride\<close> is beyond \<open>INT_MAX\<close>.
\<close>

theorem binary_stride_overflows_on_huge:
  "binary_stride (replicate 2147483647 0) 2147483647 0 = Some (Inl Signed_Overflow)"
  unfolding binary_stride_def
  apply (subst stride_for.simps)
  apply (simp add: signed_divide_int_def)
  apply (subst stride_while.simps)
  apply (simp add: c_ranges)
  apply (subst stride_while.simps)
  apply (simp add: c_ranges)
  apply (subst stride_while.simps)
  apply (simp add: c_ranges)
  done

end
